theory Spec2Isabelle
  imports Main "HOL-Library.Char_ord" "HOL-Library.List_Lexorder" "HOL-Library.Sublist"
begin

section \<open>Strings and path names\<close>

text \<open>
  A Python \<open>str\<close> is modelled as a \<open>string\<close> (a list of characters, ASCII names), a
  \<open>pathlib.Path\<close> as the list of its components below the root: \<open>/tmp/in/a.png\<close> is
  \<open>[''tmp'', ''in'', ''a.png'']\<close> and \<open>d / name\<close> is \<open>d @ [name]\<close>. A folder name is one
  component.
\<close>

type_synonym path = "string list"

text \<open>\<open>str.lower()\<close> on ASCII text.\<close>

definition lower_char :: "char \<Rightarrow> char" where
  "lower_char c =
     (if 65 \<le> (of_char c :: nat) \<and> (of_char c :: nat) \<le> 90
      then char_of ((of_char c :: nat) + 32) else c)"

definition lower :: "string \<Rightarrow> string" where
  "lower s = map lower_char s"

text \<open>\<open>pat in s\<close> on strings: \<open>pat\<close> occurs in \<open>s\<close> as a contiguous block.\<close>

fun contains :: "string \<Rightarrow> string \<Rightarrow> bool" where
  "contains [] pat = (pat = [])"
| "contains (c # cs) pat = (prefix pat (c # cs) \<or> contains cs pat)"

text \<open>\<open>s.startswith('.')\<close>.\<close>

definition startswith_dot :: "string \<Rightarrow> bool" where
  "startswith_dot s = (case s of [] \<Rightarrow> False | c # _ \<Rightarrow> c = CHR ''.'')"

text \<open>\<open>Path.name\<close>: the last component, the empty string for the root.\<close>

definition name :: "path \<Rightarrow> string" where
  "name p = (if p = [] then [] else last p)"

text \<open>
  \<open>str.rfind('.')\<close>: the index of the last dot, \<open>None\<close> for Python's \<open>-1\<close>.
\<close>

fun rfind_dot :: "string \<Rightarrow> nat option" where
  "rfind_dot [] = None"
| "rfind_dot (c # cs) =
     (case rfind_dot cs of
        Some i \<Rightarrow> Some (Suc i)
      | None \<Rightarrow> if c = CHR ''.'' then Some 0 else None)"

text \<open>
  \<open>PurePath.suffix\<close> and \<open>PurePath.stem\<close> of a file name (Python 3.7 to 3.13):
  with \<open>i = name.rfind('.')\<close>, the suffix is \<open>name[i:]\<close> when \<open>0 < i < len(name) - 1\<close>
  and empty otherwise; the stem is the rest.
\<close>

definition split_at_suffix :: "string \<Rightarrow> nat" where
  "split_at_suffix n =
     (case rfind_dot n of
        Some i \<Rightarrow> if 0 < i \<and> Suc i < length n then i else length n
      | None \<Rightarrow> length n)"

definition suffix_of :: "string \<Rightarrow> string" where
  "suffix_of n = drop (split_at_suffix n) n"

definition stem_of :: "string \<Rightarrow> string" where
  "stem_of n = take (split_at_suffix n) n"

text \<open>\<open>str(counter)\<close>: the decimal digits of a natural number.\<close>

definition digit_char :: "nat \<Rightarrow> char" where
  "digit_char d = char_of (48 + d)"

fun str_nat :: "nat \<Rightarrow> string" where
  "str_nat n = (if n < 10 then [digit_char n] else str_nat (n div 10) @ [digit_char (n mod 10)])"

declare str_nat.simps [simp del]

section \<open>Classification\<close>

subsection \<open>By type\<close>

text \<open>
  \<open>DEFAULT_CATEGORIES\<close>: a dict in declaration order, as an association list.
\<close>

definition DEFAULT_CATEGORIES :: "(string \<times> string list) list" where
  "DEFAULT_CATEGORIES =
   [(''Images'', [''.jpg'', ''.jpeg'', ''.png'', ''.gif'', ''.bmp'', ''.tiff'', ''.webp'', ''.svg'', ''.ico'', ''.heic'']),
    (''Documents'', [''.pdf'', ''.doc'', ''.docx'', ''.txt'', ''.rtf'', ''.odt'', ''.pages'']),
    (''Spreadsheets'', [''.xls'', ''.xlsx'', ''.csv'', ''.ods'', ''.numbers'']),
    (''Presentations'', [''.ppt'', ''.pptx'', ''.odp'', ''.key'']),
    (''Videos'', [''.mp4'', ''.avi'', ''.mkv'', ''.mov'', ''.wmv'', ''.flv'', ''.webm'', ''.m4v'']),
    (''Audio'', [''.mp3'', ''.wav'', ''.flac'', ''.aac'', ''.ogg'', ''.wma'', ''.m4a'']),
    (''Archives'', [''.zip'', ''.rar'', ''.7z'', ''.tar'', ''.gz'', ''.bz2'', ''.xz'']),
    (''Code'', [''.py'', ''.js'', ''.html'', ''.css'', ''.cpp'', ''.java'', ''.php'', ''.rb'', ''.go'', ''.rs'']),
    (''Executables'', [''.exe'', ''.msi'', ''.deb'', ''.rpm'', ''.dmg'', ''.pkg'', ''.app'']),
    (''Fonts'', [''.ttf'', ''.otf'', ''.woff'', ''.woff2'', ''.eot''])]"

text \<open>
  The inner loop of \<open>organize_by_type\<close>: \<open>target_folder = "Others"\<close>, then the first
  category whose extension list holds \<open>file_ext\<close>, then \<open>break\<close>.
\<close>

fun type_folder :: "(string \<times> string list) list \<Rightarrow> string \<Rightarrow> string" where
  "type_folder [] file_ext = ''Others''"
| "type_folder ((category, extensions) # rest) file_ext =
     (if file_ext \<in> set extensions then category else type_folder rest file_ext)"

definition classify_by_type :: "(string \<times> string list) list \<Rightarrow> path \<Rightarrow> string" where
  "classify_by_type categories file_path = type_folder categories (lower (suffix_of (name file_path)))"

subsection \<open>By size\<close>

text \<open>
  A bound of a size range: a number of bytes or \<open>float('inf')\<close>.
\<close>

datatype bound = Bytes int | Infinity

fun bound_le_size :: "bound \<Rightarrow> nat \<Rightarrow> bool" where
  "bound_le_size (Bytes b) n = (b \<le> int n)"
| "bound_le_size Infinity n = False"

fun size_lt_bound :: "nat \<Rightarrow> bound \<Rightarrow> bool" where
  "size_lt_bound n (Bytes b) = (int n < b)"
| "size_lt_bound n Infinity = True"

fun size_le_bound :: "nat \<Rightarrow> bound \<Rightarrow> bool" where
  "size_le_bound n (Bytes b) = (int n \<le> b)"
| "size_le_bound n Infinity = True"

definition default_size_ranges :: "(string \<times> bound \<times> bound) list" where
  "default_size_ranges =
   [(''Small (< 1MB)'', Bytes 0, Bytes (1024 * 1024)),
    (''Medium (1-10MB)'', Bytes (1024 * 1024), Bytes (10 * 1024 * 1024)),
    (''Large (10-100MB)'', Bytes (10 * 1024 * 1024), Bytes (100 * 1024 * 1024)),
    (''Very Large (> 100MB)'', Bytes (100 * 1024 * 1024), Infinity)]"

text \<open>
  The inner loop of \<open>organize_by_size\<close>: \<open>target_folder = "Unknown Size"\<close>, then the
  first range with \<open>min_size <= file_size < max_size\<close>, then \<open>break\<close>.
\<close>

fun size_folder :: "(string \<times> bound \<times> bound) list \<Rightarrow> nat \<Rightarrow> string" where
  "size_folder [] file_size = ''Unknown Size''"
| "size_folder ((range_name, min_size, max_size) # rest) file_size =
     (if bound_le_size min_size file_size \<and> size_lt_bound file_size max_size
      then range_name else size_folder rest file_size)"

section \<open>The file system\<close>

datatype error =
    FileNotFoundError | FileExistsError | NotADirectoryError | IsADirectoryError
  | SameFileError | ShutilError | OSError

datatype kind = Regular | Directory

record inode =
  kind :: kind
  st_size :: nat
  st_mtime :: int
  st_ctime :: int
  content :: string

type_synonym filesys = "(path \<times> inode) list"

definition new_dir :: inode where
  "new_dir = \<lparr>kind = Directory, st_size = 0, st_mtime = 0, st_ctime = 0, content = []\<rparr>"

definition lookup :: "filesys \<Rightarrow> path \<Rightarrow> inode option" where
  "lookup d p = (if p = [] then Some new_dir else map_of d p)"

definition exists :: "filesys \<Rightarrow> path \<Rightarrow> bool" where
  "exists d p = (lookup d p \<noteq> None)"

definition is_dir :: "filesys \<Rightarrow> path \<Rightarrow> bool" where
  "is_dir d p = (case lookup d p of Some n \<Rightarrow> kind n = Directory | None \<Rightarrow> False)"

definition is_file :: "filesys \<Rightarrow> path \<Rightarrow> bool" where
  "is_file d p = (case lookup d p of Some n \<Rightarrow> kind n = Regular | None \<Rightarrow> False)"

definition stat :: "filesys \<Rightarrow> path \<Rightarrow> error + inode" where
  "stat d p = (case lookup d p of Some n \<Rightarrow> Inr n | None \<Rightarrow> Inl FileNotFoundError)"

fun mkdirs :: "filesys \<Rightarrow> path \<Rightarrow> string list \<Rightarrow> error + filesys" where
  "mkdirs d base [] = Inr d"
| "mkdirs d base (c # cs) =
     (if is_dir d (base @ [c]) then mkdirs d (base @ [c]) cs
      else if exists d (base @ [c])
      then Inl (if cs = [] then FileExistsError else NotADirectoryError)
      else mkdirs ((base @ [c], new_dir) # d) (base @ [c]) cs)"

definition mkdir_parents :: "filesys \<Rightarrow> path \<Rightarrow> error + filesys" where
  "mkdir_parents d p = mkdirs d [] p"

definition remove :: "filesys \<Rightarrow> path \<Rightarrow> filesys" where
  "remove d p = filter (\<lambda>e. fst e \<noteq> p) d"

definition rename_tree :: "filesys \<Rightarrow> path \<Rightarrow> path \<Rightarrow> filesys" where
  "rename_tree d src dst =
     map (\<lambda>e. if prefix src (fst e) then (dst @ drop (length src) (fst e), snd e) else e)
       (filter (\<lambda>e. \<not> prefix dst (fst e)) d)"

definition move :: "filesys \<Rightarrow> path \<Rightarrow> path \<Rightarrow> error + filesys" where
  "move d src dst =
     (case lookup d src of
        None \<Rightarrow> Inl FileNotFoundError
      | Some n \<Rightarrow>
          let real_dst = (if is_dir d dst then dst @ [name src] else dst) in
          if src = [] then Inl OSError
          else if is_dir d dst \<and> exists d real_dst then Inl ShutilError
          else if \<not> is_dir d (butlast real_dst) then Inl FileNotFoundError
          else if kind n = Directory then
            (if prefix src real_dst then Inl ShutilError
             else if exists d real_dst then Inl NotADirectoryError
             else Inr (rename_tree d src real_dst))
          else Inr ((real_dst, n) # remove d src))"

definition copy2 :: "filesys \<Rightarrow> path \<Rightarrow> path \<Rightarrow> error + filesys" where
  "copy2 d src dst =
     (case lookup d src of
        None \<Rightarrow> Inl FileNotFoundError
      | Some n \<Rightarrow>
          let real_dst = (if is_dir d dst then dst @ [name src] else dst) in
          if kind n = Directory then Inl IsADirectoryError
          else if real_dst = src then Inl SameFileError
          else if is_dir d real_dst then Inl IsADirectoryError
          else if \<not> is_dir d (butlast real_dst) then Inl FileNotFoundError
          else Inr ((real_dst, n) # d))"

definition suffixed :: "path \<Rightarrow> path \<Rightarrow> nat \<Rightarrow> path" where
  "suffixed target_dir original_target counter =
     target_dir @ [stem_of (name original_target) @ ''_'' @ str_nat counter
                   @ suffix_of (name original_target)]"

lemma of_char_digit: "a < 10 \<Longrightarrow> (of_char (digit_char a) :: nat) = 48 + a"
  unfolding digit_char_def of_char_of by (rule mod_less) arith

lemma digit_char_inj: "a < 10 \<Longrightarrow> b < 10 \<Longrightarrow> digit_char a = digit_char b \<Longrightarrow> a = b"
proof -
  assume a: "a < 10" and b: "b < 10" and e: "digit_char a = digit_char b"
  have "(of_char (digit_char a) :: nat) = (of_char (digit_char b) :: nat)"
    using e by (rule arg_cong)
  then have "48 + a = 48 + b" unfolding of_char_digit [OF a] of_char_digit [OF b] .
  then show "a = b" by (rule add_left_imp_eq)
qed

lemma str_nat_inj: "str_nat m = str_nat n \<Longrightarrow> m = n"
proof (induction m arbitrary: n rule: str_nat.induct)
  case (1 m)
  have len: "\<And>k. 10 \<le> k \<Longrightarrow> str_nat k = str_nat (k div 10) @ [digit_char (k mod 10)]"
    by (subst str_nat.simps) simp
  have ne: "\<And>k. str_nat k \<noteq> []" by (subst str_nat.simps) simp
  show ?case
  proof (cases "m < 10")
    case True
    then have m: "str_nat m = [digit_char m]" by (subst str_nat.simps) simp
    show ?thesis
    proof (cases "n < 10")
      case True
      then have "str_nat n = [digit_char n]" by (subst str_nat.simps) simp
      with m "1.prems" \<open>m < 10\<close> True show ?thesis by (auto dest: digit_char_inj)
    next
      case False
      then have "str_nat n = str_nat (n div 10) @ [digit_char (n mod 10)]" using len by simp
      with m "1.prems" ne [of "n div 10"] show ?thesis by (auto simp: Cons_eq_append_conv)
    qed
  next
    case False
    then have m: "str_nat m = str_nat (m div 10) @ [digit_char (m mod 10)]" using len by simp
    show ?thesis
    proof (cases "n < 10")
      case True
      then have "str_nat n = [digit_char n]" by (subst str_nat.simps) simp
      with m "1.prems" ne [of "m div 10"] show ?thesis by (auto simp: append_eq_Cons_conv)
    next
      case F2: False
      then have n: "str_nat n = str_nat (n div 10) @ [digit_char (n mod 10)]" using len by simp
      from m n "1.prems" have e1: "str_nat (m div 10) = str_nat (n div 10)"
        and e2: "digit_char (m mod 10) = digit_char (n mod 10)" by auto
      from "1.IH" [OF False e1] have "m div 10 = n div 10" .
      moreover from e2 have "m mod 10 = n mod 10"
        using digit_char_inj [of "m mod 10" "n mod 10"] by simp
      ultimately show ?thesis by (metis div_mult_mod_eq)
    qed
  qed
qed

lemma suffixed_inj: "suffixed td ot a = suffixed td ot b \<Longrightarrow> a = b"
  by (auto simp: suffixed_def dest: str_nat_inj)

lemma finite_taken: "finite {k. exists d (suffixed td ot k)}"
proof -
  have "{k. exists d (suffixed td ot k)} \<subseteq> (\<lambda>k. suffixed td ot k) -` (set (map fst d))"
    by (auto simp: exists_def lookup_def suffixed_def split: if_splits dest: map_of_SomeD)
       (metis fst_conv image_iff map_of_SomeD)
  moreover have "finite ((\<lambda>k. suffixed td ot k) -` (set (map fst d)))"
    by (rule finite_vimageI) (auto simp: inj_on_def dest: suffixed_inj)
  ultimately show ?thesis by (rule finite_subset)
qed

function resolve_conflict ::
  "filesys \<Rightarrow> bool \<Rightarrow> path \<Rightarrow> path \<Rightarrow> path \<Rightarrow> nat \<Rightarrow> path" where
  "resolve_conflict d dry target_dir original_target target_path counter =
     (if exists d target_path \<and> \<not> dry
      then resolve_conflict d dry target_dir original_target
             (suffixed target_dir original_target counter) (counter + 1)
      else target_path)"
  by pat_completeness auto
termination
proof (relation "measure (\<lambda>(d, dry, td, ot, tp, c).
         card {k. c \<le> k \<and> exists d (suffixed td ot k)} + (if exists d tp then 1 else 0))")
  show "wf (measure (\<lambda>(d, dry, td, ot, tp, c).
         card {k. c \<le> k \<and> exists d (suffixed td ot k)} + (if exists d tp then 1 else 0)))"
    by simp
next
  fix d :: filesys and dry :: bool and td ot tp :: path and c :: nat
  assume a: "exists d tp \<and> \<not> dry"
  let ?S = "\<lambda>c. {k. c \<le> k \<and> exists d (suffixed td ot k)}"
  have fin: "finite (?S c)" for c
    by (rule finite_subset [OF _ finite_taken [of d td ot]]) auto
  have sub: "?S (c + 1) \<subseteq> ?S c" by auto
  have "card (?S (c + 1)) + (if exists d (suffixed td ot c) then 1 else 0) \<le> card (?S c)"
  proof (cases "exists d (suffixed td ot c)")
    case True
    then have "c \<in> ?S c" and "c \<notin> ?S (c + 1)" by auto
    then have "?S (c + 1) \<noteq> ?S c" by blast
    with sub have "?S (c + 1) \<subset> ?S c" by blast
    then have "card (?S (c + 1)) < card (?S c)" by (rule psubset_card_mono [OF fin])
    with True show ?thesis by simp
  next
    case False
    then show ?thesis using card_mono [OF fin sub] by simp
  qed
  with a show "((d, dry, td, ot, suffixed td ot c, c + 1), (d, dry, td, ot, tp, c))
      \<in> measure (\<lambda>(d, dry, td, ot, tp, c).
         card {k. c \<le> k \<and> exists d (suffixed td ot k)} + (if exists d tp then 1 else 0))"
    by simp
qed

declare resolve_conflict.simps [simp del]

subsection \<open>By name pattern\<close>

fun pattern_folder :: "(string \<times> string) list \<Rightarrow> string \<Rightarrow> string" where
  "pattern_folder [] filename = ''Others''"
| "pattern_folder ((folder_name, pattern) # rest) filename =
     (if contains filename (lower pattern) then folder_name else pattern_folder rest filename)"

definition classify_by_name_pattern :: "(string \<times> string) list \<Rightarrow> path \<Rightarrow> string" where
  "classify_by_name_pattern patterns file_path = pattern_folder patterns (lower (name file_path))"

subsection \<open>By custom rules\<close>

record conditions =
  extensions :: "string list option"
  name_contains :: "string option"
  size_range :: "(bound \<times> bound) option"

record rule =
  folder :: "string option"
  conditions :: "conditions option"

record ruleset =
  default_folder :: "string option"
  rules :: "rule list option"

definition no_conditions :: conditions where
  "no_conditions = \<lparr>extensions = None, name_contains = None, size_range = None\<rparr>"

definition rule_match :: "conditions \<Rightarrow> string \<Rightarrow> string \<Rightarrow> nat \<Rightarrow> bool" where
  "rule_match c filename file_ext file_size =
     (let match = True;
          match = (case extensions c of
                     Some exts \<Rightarrow> if file_ext \<notin> set exts then False else match
                   | None \<Rightarrow> match);
          match = (case name_contains c of
                     Some pat \<Rightarrow>
                       if match then (if \<not> contains filename (lower pat) then False else match)
                       else match
                   | None \<Rightarrow> match);
          match = (case size_range c of
                     Some (min_size, max_size) \<Rightarrow>
                       if match
                       then (if \<not> (bound_le_size min_size file_size \<and> size_le_bound file_size max_size)
                             then False else match)
                       else match
                   | None \<Rightarrow> match)
      in match)"

fun rules_folder :: "rule list \<Rightarrow> string \<Rightarrow> string \<Rightarrow> nat \<Rightarrow> string option" where
  "rules_folder [] filename file_ext file_size = None"
| "rules_folder (r # rest) filename file_ext file_size =
     (if rule_match (case conditions r of Some c \<Rightarrow> c | None \<Rightarrow> no_conditions)
           filename file_ext file_size
      then Some (case folder r of Some f \<Rightarrow> f | None \<Rightarrow> ''Others'')
      else rules_folder rest filename file_ext file_size)"

definition custom_folder :: "ruleset \<Rightarrow> string \<Rightarrow> nat \<Rightarrow> string" where
  "custom_folder rs file_name file_size =
     (case rules_folder (case rules rs of Some l \<Rightarrow> l | None \<Rightarrow> [])
             (lower file_name) (lower (suffix_of file_name)) file_size of
        Some f \<Rightarrow> f
      | None \<Rightarrow> (case default_folder rs of Some f \<Rightarrow> f | None \<Rightarrow> ''Others''))"

definition apply_custom_rules :: "filesys \<Rightarrow> path \<Rightarrow> ruleset \<Rightarrow> error + string" where
  "apply_custom_rules d file_path rs =
     (case stat d file_path of
        Inl e \<Rightarrow> Inl e
      | Inr st \<Rightarrow> Inr (custom_folder rs (name file_path) (st_size st)))"

section \<open>The organizer\<close>

datatype event =
    Would_move path path
  | Copied string string
  | Moved string string
  | Failed_to_move string error
  | Failed_to_get_date string error
  | Failed_to_get_size string error
  | No_files_were_moved
  | Undo_script_created
  | Moved_back string
  | File_not_found path
  | Failed_to_move_back path error
  | Successfully_moved_back nat

record organizer =
  source_dir :: path
  target_dir :: path
  dry_run :: bool
  copy_files :: bool
  moved_files :: "path list"
  failed_files :: "path list"
  disk :: filesys
  events :: "event list"

definition init :: "filesys \<Rightarrow> path \<Rightarrow> path option \<Rightarrow> bool \<Rightarrow> bool \<Rightarrow> error + organizer" where
  "init d source target dry copy =
     (if \<not> exists d source then Inl FileNotFoundError
      else Inr \<lparr>source_dir = source,
                target_dir = (case target of Some t \<Rightarrow> t | None \<Rightarrow> source),
                dry_run = dry, copy_files = copy,
                moved_files = [], failed_files = [],
                disk = d, events = []\<rparr>)"

definition glob :: "filesys \<Rightarrow> path \<Rightarrow> bool \<Rightarrow> path list" where
  "glob d root recursive =
     (if \<not> is_dir d root then []
      else remdups (filter (\<lambda>p. if recursive then strict_prefix root p
                                 else p \<noteq> [] \<and> butlast p = root) (map fst d)))"

definition get_files :: "organizer \<Rightarrow> bool \<Rightarrow> bool \<Rightarrow> path list" where
  "get_files s recursive include_hidden =
     sort (filter (\<lambda>item. is_file (disk s) item
                          \<and> \<not> (\<not> include_hidden \<and> startswith_dot (name item)))
             (glob (disk s) (source_dir s) recursive))"

definition move_failed :: "organizer \<Rightarrow> path \<Rightarrow> error \<Rightarrow> bool \<times> organizer" where
  "move_failed s source_path e =
     (False, s\<lparr>events := events s @ [Failed_to_move (name source_path) e],
               failed_files := failed_files s @ [source_path]\<rparr>)"

definition move_file :: "organizer \<Rightarrow> path \<Rightarrow> string \<Rightarrow> bool \<times> organizer" where
  "move_file s source_path target_folder =
     (let target_dir' = target_dir s @ [target_folder] in
      case (if \<not> dry_run s then mkdir_parents (disk s) target_dir' else Inr (disk s)) of
        Inl e \<Rightarrow> move_failed s source_path e
      | Inr d1 \<Rightarrow>
          let s1 = s\<lparr>disk := d1\<rparr>;
              target_path = target_dir' @ [name source_path];
              target_path = resolve_conflict d1 (dry_run s) target_dir' target_path target_path 1
          in if dry_run s
             then (True, s1\<lparr>events := events s1 @ [Would_move source_path target_path]\<rparr>)
             else if copy_files s
             then (case copy2 d1 source_path target_path of
                     Inl e \<Rightarrow> move_failed s1 source_path e
                   | Inr d2 \<Rightarrow>
                       (True, s1\<lparr>disk := d2,
                                  events := events s1 @ [Copied (name source_path) target_folder],
                                  moved_files := moved_files s1 @ [target_path]\<rparr>))
             else (case move d1 source_path target_path of
                     Inl e \<Rightarrow> move_failed s1 source_path e
                   | Inr d2 \<Rightarrow>
                       (True, s1\<lparr>disk := d2,
                                  events := events s1 @ [Moved (name source_path) target_folder],
                                  moved_files := moved_files s1 @ [target_path]\<rparr>)))"

type_synonym stats = "(string \<times> nat) list"

fun bump :: "stats \<Rightarrow> string \<Rightarrow> stats" where
  "bump [] k = [(k, 1)]"
| "bump ((k', c) # rest) k = (if k' = k then (k', c + 1) # rest else (k', c) # bump rest k)"

definition record_move :: "organizer \<Rightarrow> stats \<Rightarrow> path \<Rightarrow> string \<Rightarrow> stats \<times> organizer" where
  "record_move s st file_path target_folder =
     (let (ok, s') = move_file s file_path target_folder
      in if ok then (bump st target_folder, s') else (st, s'))"

fun organize_by_type_loop ::
  "(string \<times> string list) list \<Rightarrow> path list \<Rightarrow> stats \<Rightarrow> organizer \<Rightarrow> stats \<times> organizer" where
  "organize_by_type_loop categories [] st s = (st, s)"
| "organize_by_type_loop categories (file_path # rest) st s =
     (let (st', s') = record_move s st file_path (classify_by_type categories file_path)
      in organize_by_type_loop categories rest st' s')"

definition organize_by_type ::
  "organizer \<Rightarrow> (string \<times> string list) list option \<Rightarrow> bool \<Rightarrow> bool \<Rightarrow> stats \<times> organizer" where
  "organize_by_type s categories recursive include_hidden =
     organize_by_type_loop (case categories of None \<Rightarrow> DEFAULT_CATEGORIES | Some c \<Rightarrow> c)
       (get_files s recursive include_hidden) [] s"

definition stat_failed :: "organizer \<Rightarrow> path \<Rightarrow> event \<Rightarrow> organizer" where
  "stat_failed s file_path ev =
     s\<lparr>events := events s @ [ev], failed_files := failed_files s @ [file_path]\<rparr>"

definition classify_by_date ::
  "(string \<Rightarrow> int \<Rightarrow> string) \<Rightarrow> string \<Rightarrow> bool \<Rightarrow> filesys \<Rightarrow> path \<Rightarrow> error + string" where
  "classify_by_date strftime date_format use_creation_date d file_path =
     (case stat d file_path of
        Inl e \<Rightarrow> Inl e
      | Inr r \<Rightarrow>
          let timestamp = (if use_creation_date then st_ctime r else st_mtime r)
          in Inr (strftime date_format timestamp))"

fun organize_by_date_loop ::
  "(string \<Rightarrow> int \<Rightarrow> string) \<Rightarrow> string \<Rightarrow> bool \<Rightarrow> path list \<Rightarrow> stats \<Rightarrow> organizer
     \<Rightarrow> stats \<times> organizer" where
  "organize_by_date_loop strftime date_format use_creation_date [] st s = (st, s)"
| "organize_by_date_loop strftime date_format use_creation_date (file_path # rest) st s =
     (let (st', s') =
        (case classify_by_date strftime date_format use_creation_date (disk s) file_path of
           Inl e \<Rightarrow> (st, stat_failed s file_path (Failed_to_get_date (name file_path) e))
         | Inr folder_name \<Rightarrow> record_move s st file_path folder_name)
      in organize_by_date_loop strftime date_format use_creation_date rest st' s')"

definition organize_by_date ::
  "(string \<Rightarrow> int \<Rightarrow> string) \<Rightarrow> organizer \<Rightarrow> string \<Rightarrow> bool \<Rightarrow> bool \<Rightarrow> bool
     \<Rightarrow> stats \<times> organizer" where
  "organize_by_date strftime s date_format use_creation_date recursive include_hidden =
     organize_by_date_loop strftime date_format use_creation_date
       (get_files s recursive include_hidden) [] s"

definition classify_by_size ::
  "(string \<times> bound \<times> bound) list \<Rightarrow> filesys \<Rightarrow> path \<Rightarrow> error + string" where
  "classify_by_size size_ranges d file_path =
     (case stat d file_path of
        Inl e \<Rightarrow> Inl e
      | Inr r \<Rightarrow> Inr (size_folder size_ranges (st_size r)))"

fun organize_by_size_loop ::
  "(string \<times> bound \<times> bound) list \<Rightarrow> path list \<Rightarrow> stats \<Rightarrow> organizer \<Rightarrow> stats \<times> organizer" where
  "organize_by_size_loop size_ranges [] st s = (st, s)"
| "organize_by_size_loop size_ranges (file_path # rest) st s =
     (let (st', s') =
        (case classify_by_size size_ranges (disk s) file_path of
           Inl e \<Rightarrow> (st, stat_failed s file_path (Failed_to_get_size (name file_path) e))
         | Inr target_folder \<Rightarrow> record_move s st file_path target_folder)
      in organize_by_size_loop size_ranges rest st' s')"

definition organize_by_size ::
  "organizer \<Rightarrow> (string \<times> bound \<times> bound) list option \<Rightarrow> bool \<Rightarrow> bool \<Rightarrow> stats \<times> organizer" where
  "organize_by_size s size_ranges recursive include_hidden =
     organize_by_size_loop (case size_ranges of None \<Rightarrow> default_size_ranges | Some r \<Rightarrow> r)
       (get_files s recursive include_hidden) [] s"

fun organize_by_name_pattern_loop ::
  "(string \<times> string) list \<Rightarrow> path list \<Rightarrow> stats \<Rightarrow> organizer \<Rightarrow> stats \<times> organizer" where
  "organize_by_name_pattern_loop patterns [] st s = (st, s)"
| "organize_by_name_pattern_loop patterns (file_path # rest) st s =
     (let (st', s') = record_move s st file_path (classify_by_name_pattern patterns file_path)
      in organize_by_name_pattern_loop patterns rest st' s')"

definition organize_by_name_pattern ::
  "organizer \<Rightarrow> (string \<times> string) list \<Rightarrow> bool \<Rightarrow> bool \<Rightarrow> stats \<times> organizer" where
  "organize_by_name_pattern s patterns recursive include_hidden =
     organize_by_name_pattern_loop patterns (get_files s recursive include_hidden) [] s"

fun organize_by_custom_rules_loop ::
  "ruleset \<Rightarrow> path list \<Rightarrow> stats \<Rightarrow> organizer \<Rightarrow> (error + stats) \<times> organizer" where
  "organize_by_custom_rules_loop rs [] st s = (Inr st, s)"
| "organize_by_custom_rules_loop rs (file_path # rest) st s =
     (case apply_custom_rules (disk s) file_path rs of
        Inl e \<Rightarrow> (Inl e, s)
      | Inr target_folder \<Rightarrow>
          let (st', s') = record_move s st file_path target_folder
          in organize_by_custom_rules_loop rs rest st' s')"

definition organize_by_custom_rules ::
  "organizer \<Rightarrow> ruleset \<Rightarrow> bool \<Rightarrow> bool \<Rightarrow> (error + stats) \<times> organizer" where
  "organize_by_custom_rules s rs recursive include_hidden =
     organize_by_custom_rules_loop rs (get_files s recursive include_hidden) [] s"

definition get_stats :: "organizer \<Rightarrow> (string \<times> nat) list" where
  "get_stats s = [(''moved_files'', length (moved_files s)), (''failed_files'', length (failed_files s))]"

section \<open>The undo script\<close>

record undo_script =
  script_moved_files :: "path list"
  script_source_dir :: path

definition create_undo_script :: "organizer \<Rightarrow> undo_script option \<times> organizer" where
  "create_undo_script s =
     (if moved_files s = [] then (None, s\<lparr>events := events s @ [No_files_were_moved]\<rparr>)
      else (Some \<lparr>script_moved_files = moved_files s, script_source_dir = source_dir s\<rparr>,
            s\<lparr>events := events s @ [Undo_script_created]\<rparr>))"

function undo_resolve_conflict :: "filesys \<Rightarrow> path \<Rightarrow> path \<Rightarrow> path \<Rightarrow> nat \<Rightarrow> path" where
  "undo_resolve_conflict d source_dir' original_target target_path counter =
     (if exists d target_path
      then undo_resolve_conflict d source_dir' original_target
             (suffixed source_dir' original_target counter) (counter + 1)
      else target_path)"
  by pat_completeness auto
termination
proof (relation "measure (\<lambda>(d, td, ot, tp, c).
         card {k. c \<le> k \<and> exists d (suffixed td ot k)} + (if exists d tp then 1 else 0))")
  show "wf (measure (\<lambda>(d, td, ot, tp, c).
         card {k. c \<le> k \<and> exists d (suffixed td ot k)} + (if exists d tp then 1 else 0)))"
    by simp
next
  fix d :: filesys and td ot tp :: path and c :: nat
  assume a: "exists d tp"
  let ?S = "\<lambda>c. {k. c \<le> k \<and> exists d (suffixed td ot k)}"
  have fin: "finite (?S c)" for c
    by (rule finite_subset [OF _ finite_taken [of d td ot]]) auto
  have sub: "?S (c + 1) \<subseteq> ?S c" by auto
  have "card (?S (c + 1)) + (if exists d (suffixed td ot c) then 1 else 0) \<le> card (?S c)"
  proof (cases "exists d (suffixed td ot c)")
    case True
    then have "c \<in> ?S c" and "c \<notin> ?S (c + 1)" by auto
    then have "?S (c + 1) \<noteq> ?S c" by blast
    with sub have "?S (c + 1) \<subset> ?S c" by blast
    then have "card (?S (c + 1)) < card (?S c)" by (rule psubset_card_mono [OF fin])
    with True show ?thesis by simp
  next
    case False
    then show ?thesis using card_mono [OF fin sub] by simp
  qed
  with a show "((d, td, ot, suffixed td ot c, c + 1), (d, td, ot, tp, c))
      \<in> measure (\<lambda>(d, td, ot, tp, c).
         card {k. c \<le> k \<and> exists d (suffixed td ot k)} + (if exists d tp then 1 else 0))"
    by simp
qed

declare undo_resolve_conflict.simps [simp del]

record undo_run =
  undo_disk :: filesys
  printed :: "event list"
  success_count :: nat

definition undo_file :: "path \<Rightarrow> path \<Rightarrow> undo_run \<Rightarrow> undo_run" where
  "undo_file source_dir' file_path u =
     (if exists (undo_disk u) file_path
      then (let target_path = source_dir' @ [name file_path];
                target_path = undo_resolve_conflict (undo_disk u) source_dir' target_path target_path 1
            in case move (undo_disk u) file_path target_path of
                 Inl e \<Rightarrow> u\<lparr>printed := printed u @ [Failed_to_move_back file_path e]\<rparr>
               | Inr d' \<Rightarrow> u\<lparr>undo_disk := d',
                              printed := printed u @ [Moved_back (name file_path)],
                              success_count := success_count u + 1\<rparr>)
      else u\<lparr>printed := printed u @ [File_not_found file_path]\<rparr>)"

fun undo_loop :: "path \<Rightarrow> path list \<Rightarrow> undo_run \<Rightarrow> undo_run" where
  "undo_loop source_dir' [] u = u"
| "undo_loop source_dir' (file_path # rest) u = undo_loop source_dir' rest (undo_file source_dir' file_path u)"

definition undo_organization :: "undo_script \<Rightarrow> filesys \<Rightarrow> undo_run" where
  "undo_organization script d =
     (let u = undo_loop (script_source_dir script) (script_moved_files script)
                \<lparr>undo_disk = d, printed = [], success_count = 0\<rparr>
      in u\<lparr>printed := printed u @ [Successfully_moved_back (success_count u)]\<rparr>)"

section \<open>Classification by size\<close>





section \<open>The conflict loop\<close>

lemma resolve_conflict_free:
  "\<not> exists d target_path \<Longrightarrow> resolve_conflict d dry td ot target_path c = target_path"
  by (subst resolve_conflict.simps) simp

lemma resolve_conflict_dry:
  "resolve_conflict d True td ot target_path c = target_path"
  by (subst resolve_conflict.simps) simp

lemma resolve_conflict_step:
  "exists d target_path \<Longrightarrow>
   resolve_conflict d False td ot target_path c
     = resolve_conflict d False td ot (suffixed td ot c) (c + 1)"
  by (subst resolve_conflict.simps) simp

lemma resolve_conflict_taken:
  "exists d target_path \<Longrightarrow> \<not> dry \<Longrightarrow>
   \<exists>k\<ge>c. resolve_conflict d dry td ot target_path c = suffixed td ot k
          \<and> \<not> exists d (suffixed td ot k)
          \<and> (\<forall>j. c \<le> j \<and> j < k \<longrightarrow> exists d (suffixed td ot j))"
proof (induction d dry td ot target_path c rule: resolve_conflict.induct)
  case (1 d dry td ot tp c)
  from "1.prems" have dry: "dry = False" by simp
  have step: "resolve_conflict d dry td ot tp c
      = resolve_conflict d dry td ot (suffixed td ot c) (c + 1)"
    using "1.prems" resolve_conflict_step [of d tp td ot c] by (simp add: dry)
  show ?case
  proof (cases "exists d (suffixed td ot c)")
    case True
    from "1.IH" [OF _ True "1.prems"(2)] "1.prems"
    obtain k where k: "c + 1 \<le> k"
      "resolve_conflict d dry td ot (suffixed td ot c) (c + 1) = suffixed td ot k"
      "\<not> exists d (suffixed td ot k)"
      "\<forall>j. c + 1 \<le> j \<and> j < k \<longrightarrow> exists d (suffixed td ot j)"
      by auto
    have "\<forall>j. c \<le> j \<and> j < k \<longrightarrow> exists d (suffixed td ot j)"
    proof (intro allI impI)
      fix j assume j: "c \<le> j \<and> j < k"
      show "exists d (suffixed td ot j)"
      proof (cases "j = c")
        case True then show ?thesis using \<open>exists d (suffixed td ot c)\<close> by simp
      next
        case False then show ?thesis using j k(4) by simp
      qed
    qed
    with k step show ?thesis by (intro exI [of _ k]) auto
  next
    case False
    then have "resolve_conflict d dry td ot (suffixed td ot c) (c + 1) = suffixed td ot c"
      by (rule resolve_conflict_free)
    with step False show ?thesis by (intro exI [of _ c]) auto
  qed
qed

lemma undo_resolve_conflict_eq:
  "undo_resolve_conflict d td ot target_path c = resolve_conflict d False td ot target_path c"
proof (induction d td ot target_path c rule: undo_resolve_conflict.induct)
  case (1 d td ot tp c)
  show ?case
  proof (cases "exists d tp")
    case True
    have "undo_resolve_conflict d td ot tp c
        = undo_resolve_conflict d td ot (suffixed td ot c) (c + 1)"
      using True by (subst undo_resolve_conflict.simps) simp
    also have "\<dots> = resolve_conflict d False td ot (suffixed td ot c) (c + 1)"
      using "1.IH" [OF True] .
    also have "\<dots> = resolve_conflict d False td ot tp c"
      using resolve_conflict_step [OF True] by simp
    finally show ?thesis .
  next
    case False
    then show ?thesis
      by (subst undo_resolve_conflict.simps) (simp add: resolve_conflict_free)
  qed
qed


section \<open>One relocation\<close>

lemma move_file_dry:
  "dry_run s \<Longrightarrow>
   move_file s p f = (True, s\<lparr>events := events s @ [Would_move p (target_dir s @ [f, name p])]\<rparr>)"
  by (simp add: move_file_def resolve_conflict_dry)

lemma move_file_config:
  "source_dir (snd (move_file s p f)) = source_dir s
   \<and> target_dir (snd (move_file s p f)) = target_dir s
   \<and> dry_run (snd (move_file s p f)) = dry_run s
   \<and> copy_files (snd (move_file s p f)) = copy_files s"
  by (simp add: move_file_def move_failed_def Let_def split: sum.splits)



section \<open>Statistics\<close>



lemma record_move_dry:
  "dry_run s \<Longrightarrow>
   record_move s st p f
     = (bump st f, s\<lparr>events := events s @ [Would_move p (target_dir s @ [f, name p])]\<rparr>)"
  by (simp add: record_move_def move_file_dry)


lemma record_move_moved:
  "dry_run s \<Longrightarrow> moved_files (snd (record_move s st p f)) = moved_files s"
  by (simp add: record_move_dry)

text \<open>Two organizer states that a classification run cannot tell apart.\<close>

definition same_input :: "organizer \<Rightarrow> organizer \<Rightarrow> bool" where
  "same_input s t =
     (disk s = disk t \<and> source_dir s = source_dir t \<and> target_dir s = target_dir t
      \<and> dry_run s = dry_run t \<and> copy_files s = copy_files t)"

lemma same_input_refl: "same_input s s"
  by (simp add: same_input_def)

lemma get_files_same: "same_input s t \<Longrightarrow> get_files s r h = get_files t r h"
  by (simp add: same_input_def get_files_def)

text \<open>What a dry run keeps: the disk, the configuration and the move log.\<close>

definition dry_frame :: "organizer \<Rightarrow> organizer \<Rightarrow> bool" where
  "dry_frame s s' = (same_input s s' \<and> moved_files s' = moved_files s)"

lemma record_move_dry_frame:
  "dry_run s \<Longrightarrow> dry_frame s (snd (record_move s st p f))"
  by (simp add: record_move_dry dry_frame_def same_input_def)

lemma record_move_dry_same:
  "dry_run s \<Longrightarrow> same_input s t \<Longrightarrow> fst (record_move s st p f) = fst (record_move t st p f)"
  by (simp add: record_move_dry same_input_def)

lemma stat_failed_frame: "dry_frame s (stat_failed s p ev)"
  by (simp add: stat_failed_def dry_frame_def same_input_def)

lemma dry_frame_trans: "dry_frame s t \<Longrightarrow> dry_frame t u \<Longrightarrow> dry_frame s u"
  by (simp add: dry_frame_def same_input_def)

lemma dry_frame_dry: "dry_frame s t \<Longrightarrow> dry_run t = dry_run s"
  by (simp add: dry_frame_def same_input_def)

subsection \<open>By type\<close>

lemma type_loop_dry:
  "dry_run s \<Longrightarrow> same_input s t \<Longrightarrow>
   dry_frame s (snd (organize_by_type_loop cats files st s))
   \<and> fst (organize_by_type_loop cats files st s) = fst (organize_by_type_loop cats files st t)"
proof (induction files arbitrary: st s t)
  case Nil
  then show ?case by (simp add: dry_frame_def same_input_def)
next
  case (Cons p files)
  let ?f = "classify_by_type cats p"
  let ?s = "snd (record_move s st p ?f)" and ?t = "snd (record_move t st p ?f)"
  have dt: "dry_run t" using Cons.prems by (simp add: same_input_def)
  have st: "same_input t s" using Cons.prems by (simp add: same_input_def)
  have fs: "dry_frame s ?s" using Cons.prems by (simp add: record_move_dry_frame)
  have ft: "dry_frame t ?t" using dt by (simp add: record_move_dry_frame)
  have eq: "fst (record_move s st p ?f) = fst (record_move t st p ?f)"
    using Cons.prems by (rule record_move_dry_same)
  have ds: "dry_run ?s" using fs Cons.prems by (simp add: dry_frame_dry)
  have rel: "same_input ?s ?t"
    using fs ft Cons.prems by (simp add: dry_frame_def same_input_def)
  from Cons.IH [OF ds rel, of "fst (record_move s st p ?f)"] fs eq
  show ?case by (auto simp: split_beta dest: dry_frame_trans)
qed


section \<open>The five strategies\<close>

text \<open>
  The strategy that \<open>main\<close> selects from the command line, with its configuration, and the
  call that \<open>main\<close> dispatches to.
\<close>

datatype strategy =
    By_type "(string \<times> string list) list option"
  | By_date string bool
  | By_size "(string \<times> bound \<times> bound) list option"
  | By_name "(string \<times> string) list"
  | By_custom ruleset

definition organize ::
  "(string \<Rightarrow> int \<Rightarrow> string) \<Rightarrow> strategy \<Rightarrow> organizer \<Rightarrow> bool \<Rightarrow> bool
     \<Rightarrow> (error + stats) \<times> organizer" where
  "organize strftime strat s recursive include_hidden =
     (case strat of
        By_type categories \<Rightarrow>
          (let (st, s') = organize_by_type s categories recursive include_hidden in (Inr st, s'))
      | By_date date_format use_creation_date \<Rightarrow>
          (let (st, s') = organize_by_date strftime s date_format use_creation_date
                            recursive include_hidden in (Inr st, s'))
      | By_size size_ranges \<Rightarrow>
          (let (st, s') = organize_by_size s size_ranges recursive include_hidden in (Inr st, s'))
      | By_name patterns \<Rightarrow>
          (let (st, s') = organize_by_name_pattern s patterns recursive include_hidden
           in (Inr st, s'))
      | By_custom rs \<Rightarrow> organize_by_custom_rules s rs recursive include_hidden)"

subsection \<open>By date\<close>

lemma date_loop_dry:
  "dry_run s \<Longrightarrow> same_input s t \<Longrightarrow>
   dry_frame s (snd (organize_by_date_loop sf fmt ucd files st s))
   \<and> fst (organize_by_date_loop sf fmt ucd files st s)
       = fst (organize_by_date_loop sf fmt ucd files st t)"
proof (induction files arbitrary: st s t)
  case Nil
  then show ?case by (simp add: dry_frame_def same_input_def)
next
  case (Cons p files)
  have dt: "dry_run t" and dd: "disk t = disk s"
    using Cons.prems by (simp_all add: same_input_def)
  show ?case
  proof (cases "classify_by_date sf fmt ucd (disk s) p")
    case (Inl e)
    let ?s = "stat_failed s p (Failed_to_get_date (name p) e)"
    let ?t = "stat_failed t p (Failed_to_get_date (name p) e)"
    have fs: "dry_frame s ?s" and ft: "dry_frame t ?t" by (rule stat_failed_frame)+
    have ds: "dry_run ?s" using fs Cons.prems by (simp add: dry_frame_dry)
    have rel: "same_input ?s ?t"
      using fs ft Cons.prems by (simp add: dry_frame_def same_input_def)
    from Cons.IH [OF ds rel, of st] fs Inl dd
    show ?thesis by (auto dest: dry_frame_trans)
  next
    case (Inr f)
    let ?s = "snd (record_move s st p f)" and ?t = "snd (record_move t st p f)"
    have fs: "dry_frame s ?s" using Cons.prems by (simp add: record_move_dry_frame)
    have ft: "dry_frame t ?t" using dt by (simp add: record_move_dry_frame)
    have eq: "fst (record_move s st p f) = fst (record_move t st p f)"
      using Cons.prems by (rule record_move_dry_same)
    have ds: "dry_run ?s" using fs Cons.prems by (simp add: dry_frame_dry)
    have rel: "same_input ?s ?t"
      using fs ft Cons.prems by (simp add: dry_frame_def same_input_def)
    from Cons.IH [OF ds rel, of "fst (record_move s st p f)"] fs eq Inr dd
    show ?thesis by (auto simp: split_beta dest: dry_frame_trans)
  qed
qed



subsection \<open>By size\<close>

lemma size_loop_dry:
  "dry_run s \<Longrightarrow> same_input s t \<Longrightarrow>
   dry_frame s (snd (organize_by_size_loop ranges files st s))
   \<and> fst (organize_by_size_loop ranges files st s)
       = fst (organize_by_size_loop ranges files st t)"
proof (induction files arbitrary: st s t)
  case Nil
  then show ?case by (simp add: dry_frame_def same_input_def)
next
  case (Cons p files)
  have dt: "dry_run t" and dd: "disk t = disk s"
    using Cons.prems by (simp_all add: same_input_def)
  show ?case
  proof (cases "classify_by_size ranges (disk s) p")
    case (Inl e)
    let ?s = "stat_failed s p (Failed_to_get_size (name p) e)"
    let ?t = "stat_failed t p (Failed_to_get_size (name p) e)"
    have fs: "dry_frame s ?s" and ft: "dry_frame t ?t" by (rule stat_failed_frame)+
    have ds: "dry_run ?s" using fs Cons.prems by (simp add: dry_frame_dry)
    have rel: "same_input ?s ?t"
      using fs ft Cons.prems by (simp add: dry_frame_def same_input_def)
    from Cons.IH [OF ds rel, of st] fs Inl dd
    show ?thesis by (auto dest: dry_frame_trans)
  next
    case (Inr f)
    let ?s = "snd (record_move s st p f)" and ?t = "snd (record_move t st p f)"
    have fs: "dry_frame s ?s" using Cons.prems by (simp add: record_move_dry_frame)
    have ft: "dry_frame t ?t" using dt by (simp add: record_move_dry_frame)
    have eq: "fst (record_move s st p f) = fst (record_move t st p f)"
      using Cons.prems by (rule record_move_dry_same)
    have ds: "dry_run ?s" using fs Cons.prems by (simp add: dry_frame_dry)
    have rel: "same_input ?s ?t"
      using fs ft Cons.prems by (simp add: dry_frame_def same_input_def)
    from Cons.IH [OF ds rel, of "fst (record_move s st p f)"] fs eq Inr dd
    show ?thesis by (auto simp: split_beta dest: dry_frame_trans)
  qed
qed


subsection \<open>By name pattern\<close>

lemma name_loop_dry:
  "dry_run s \<Longrightarrow> same_input s t \<Longrightarrow>
   dry_frame s (snd (organize_by_name_pattern_loop pats files st s))
   \<and> fst (organize_by_name_pattern_loop pats files st s)
       = fst (organize_by_name_pattern_loop pats files st t)"
proof (induction files arbitrary: st s t)
  case Nil
  then show ?case by (simp add: dry_frame_def same_input_def)
next
  case (Cons p files)
  let ?f = "classify_by_name_pattern pats p"
  let ?s = "snd (record_move s st p ?f)" and ?t = "snd (record_move t st p ?f)"
  have dt: "dry_run t" using Cons.prems by (simp add: same_input_def)
  have fs: "dry_frame s ?s" using Cons.prems by (simp add: record_move_dry_frame)
  have ft: "dry_frame t ?t" using dt by (simp add: record_move_dry_frame)
  have eq: "fst (record_move s st p ?f) = fst (record_move t st p ?f)"
    using Cons.prems by (rule record_move_dry_same)
  have ds: "dry_run ?s" using fs Cons.prems by (simp add: dry_frame_dry)
  have rel: "same_input ?s ?t"
    using fs ft Cons.prems by (simp add: dry_frame_def same_input_def)
  from Cons.IH [OF ds rel, of "fst (record_move s st p ?f)"] fs eq
  show ?case by (auto simp: split_beta dest: dry_frame_trans)
qed


subsection \<open>By custom rules\<close>

lemma custom_loop_dry:
  "dry_run s \<Longrightarrow> same_input s t \<Longrightarrow>
   dry_frame s (snd (organize_by_custom_rules_loop rs files st s))
   \<and> fst (organize_by_custom_rules_loop rs files st s)
       = fst (organize_by_custom_rules_loop rs files st t)"
proof (induction files arbitrary: st s t)
  case Nil
  then show ?case by (simp add: dry_frame_def same_input_def)
next
  case (Cons p files)
  have dt: "dry_run t" and dd: "disk t = disk s"
    using Cons.prems by (simp_all add: same_input_def)
  show ?case
  proof (cases "apply_custom_rules (disk s) p rs")
    case (Inl e)
    with dd Cons.prems show ?thesis by (simp add: dry_frame_def same_input_def)
  next
    case (Inr f)
    let ?s = "snd (record_move s st p f)" and ?t = "snd (record_move t st p f)"
    have fs: "dry_frame s ?s" using Cons.prems by (simp add: record_move_dry_frame)
    have ft: "dry_frame t ?t" using dt by (simp add: record_move_dry_frame)
    have eq: "fst (record_move s st p f) = fst (record_move t st p f)"
      using Cons.prems by (rule record_move_dry_same)
    have ds: "dry_run ?s" using fs Cons.prems by (simp add: dry_frame_dry)
    have rel: "same_input ?s ?t"
      using fs ft Cons.prems by (simp add: dry_frame_def same_input_def)
    from Cons.IH [OF ds rel, of "fst (record_move s st p f)"] fs eq Inr dd
    show ?thesis by (auto simp: split_beta dest: dry_frame_trans)
  qed
qed

subsection \<open>Any strategy\<close>

lemma organize_dry:
  assumes "dry_run s" and "same_input s t"
  shows "dry_frame s (snd (organize sf strat s r h))
         \<and> fst (organize sf strat s r h) = fst (organize sf strat t r h)"
proof -
  have g: "get_files t r h = get_files s r h"
    using assms(2) by (simp add: get_files_same)
  show ?thesis
  proof (cases strat)
    case (By_type c)
    then show ?thesis
      using type_loop_dry [OF assms] g
      by (simp add: organize_def organize_by_type_def split_beta)
  next
    case (By_date fmt ucd)
    then show ?thesis
      using date_loop_dry [OF assms] g
      by (simp add: organize_def organize_by_date_def split_beta)
  next
    case (By_size c)
    then show ?thesis
      using size_loop_dry [OF assms] g
      by (simp add: organize_def organize_by_size_def split_beta)
  next
    case (By_name c)
    then show ?thesis
      using name_loop_dry [OF assms] g
      by (simp add: organize_def organize_by_name_pattern_def split_beta)
  next
    case (By_custom c)
    then show ?thesis
      using custom_loop_dry [OF assms] g
      by (simp add: organize_def organize_by_custom_rules_def split_beta)
  qed
qed

section \<open>Dry runs\<close>

text \<open>A small disk and a dry-run organizer on it, for the instances below.\<close>

definition regular :: "nat \<Rightarrow> string \<Rightarrow> inode" where
  "regular n c = \<lparr>kind = Regular, st_size = n, st_mtime = 0, st_ctime = 0, content = c\<rparr>"

definition demo_disk :: filesys where
  "demo_disk =
     [([''in''], new_dir),
      ([''in'', ''a.png''], regular 10 ''A''),
      ([''in'', ''b.txt''], regular 20 ''B''),
      ([''in'', ''c.xyz''], regular 30 ''C'')]"

definition demo_dry :: organizer where
  "demo_dry =
     \<lparr>source_dir = [''in''], target_dir = [''in''], dry_run = True, copy_files = False,
      moved_files = [], failed_files = [], disk = demo_disk, events = []\<rparr>"

lemma demo_dry_run: "organize sf (By_type None) demo_dry False False =
   (Inr [(''Images'', 1), (''Documents'', 1), (''Others'', 1)],
    demo_dry\<lparr>events :=
      [Would_move [''in'', ''a.png''] [''in'', ''Images'', ''a.png''],
       Would_move [''in'', ''b.txt''] [''in'', ''Documents'', ''b.txt''],
       Would_move [''in'', ''c.xyz''] [''in'', ''Others'', ''c.xyz'']]\<rparr>)"
  by code_simp

text \<open>
  Claim C7. In dry-run mode one relocation changes nothing but the log of messages: it
  answers \<open>True\<close>, reports the computed source and target, and leaves the disk (no
  directory made, no file moved or copied), the move log and the failure list as they
  were. A run of any strategy in dry-run mode leaves the disk unchanged, and a second
  dry run over the same disk and configuration (the same organizer again, or a fresh one)
  returns the same statistics and again leaves the disk unchanged.
\<close>

theorem dry_run_idempotent:
  assumes "dry_run s" and "same_input (snd (organize strftime strat s recursive hidden)) t"
  shows "move_file s p f
           = (True, s\<lparr>events := events s @ [Would_move p (target_dir s @ [f, name p])]\<rparr>)
       \<and> disk (snd (move_file s p f)) = disk s
       \<and> disk (snd (organize strftime strat s recursive hidden)) = disk s
       \<and> fst (organize strftime strat t recursive hidden)
           = fst (organize strftime strat s recursive hidden)
       \<and> disk (snd (organize strftime strat t recursive hidden)) = disk s"
proof -
  let ?s1 = "snd (organize strftime strat s recursive hidden)"
  have f1: "dry_frame s ?s1"
    using organize_dry [OF assms(1) same_input_refl] by simp
  then have s1: "same_input s ?s1" by (simp add: dry_frame_def)
  with assms(2) have st: "same_input s t" by (simp add: same_input_def)
  have dt: "dry_run t" using st assms(1) by (simp add: same_input_def)
  have eq: "fst (organize strftime strat s recursive hidden)
      = fst (organize strftime strat t recursive hidden)"
    using organize_dry [OF assms(1) st] by simp
  have f2: "dry_frame t (snd (organize strftime strat t recursive hidden))"
    using organize_dry [OF dt same_input_refl] by simp
  show ?thesis
    using move_file_dry [OF assms(1)] s1 st f2 eq
    by (simp add: dry_frame_def same_input_def)
qed

theorem dry_run_idempotent_witness:
  "fst (organize (\<lambda>fmt ts. ''2024-01'') (By_type None)
         (snd (organize (\<lambda>fmt ts. ''2024-01'') (By_type None) demo_dry False False)) False False)
     = Inr [(''Images'', 1), (''Documents'', 1), (''Others'', 1)]
   \<and> fst (organize (\<lambda>fmt ts. ''2024-01'') (By_type None) demo_dry False False)
     = Inr [(''Images'', 1), (''Documents'', 1), (''Others'', 1)]
   \<and> disk (snd (organize (\<lambda>fmt ts. ''2024-01'') (By_type None)
         (snd (organize (\<lambda>fmt ts. ''2024-01'') (By_type None) demo_dry False False)) False False))
     = demo_disk"
proof -
  have d: "dry_run demo_dry" by (simp add: demo_dry_def)
  have r: "same_input (snd (organize (\<lambda>fmt ts. ''2024-01'') (By_type None) demo_dry False False))
             (snd (organize (\<lambda>fmt ts. ''2024-01'') (By_type None) demo_dry False False))"
    by (rule same_input_refl)
  have k: "disk demo_dry = demo_disk" by (simp add: demo_dry_def)
  show ?thesis
    using dry_run_idempotent [OF d r, of "[''in'', ''a.png'']" "''Images''"]
    by (simp add: demo_dry_run k)
qed

section \<open>The move log after a dry run\<close>

lemma init_fresh:
  "init d source target dry copy = Inr s \<Longrightarrow>
   dry_run s = dry \<and> copy_files s = copy \<and> moved_files s = [] \<and> failed_files s = []
   \<and> disk s = d \<and> source_dir s = source"
  by (auto simp: init_def split: if_splits)

text \<open>
  Claim C9. After a run of any strategy in dry-run mode the move log is as it was before
  the run, so for an organizer that starts with an empty log (as the constructor makes
  it) the log is still empty: \<open>get_stats\<close> reports \<open>moved_files = 0\<close> whatever the
  per-folder statistics are, and \<open>create_undo_script\<close> writes no script and only emits
  its notice.
\<close>

theorem dry_run_logs_nothing:
  assumes "dry_run s" and "moved_files s = []"
  shows "moved_files (snd (organize strftime strat s recursive hidden)) = []
       \<and> map_of (get_stats (snd (organize strftime strat s recursive hidden))) ''moved_files''
           = Some 0
       \<and> create_undo_script (snd (organize strftime strat s recursive hidden))
           = (None, (snd (organize strftime strat s recursive hidden))
                \<lparr>events := events (snd (organize strftime strat s recursive hidden))
                            @ [No_files_were_moved]\<rparr>)"
proof -
  let ?s' = "snd (organize strftime strat s recursive hidden)"
  have "dry_frame s ?s'"
    using organize_dry [OF assms(1) same_input_refl] by simp
  then have m: "moved_files ?s' = []" using assms(2) by (simp add: dry_frame_def)
  then show ?thesis by (simp add: get_stats_def create_undo_script_def)
qed

theorem dry_run_logs_nothing_witness:
  "init demo_disk [''in''] None True False = Inr demo_dry
   \<and> fst (organize (\<lambda>fmt ts. ''2024-01'') (By_type None) demo_dry False False)
       = Inr [(''Images'', 1), (''Documents'', 1), (''Others'', 1)]
   \<and> map_of (get_stats (snd (organize (\<lambda>fmt ts. ''2024-01'') (By_type None) demo_dry False False)))
       ''moved_files'' = Some 0
   \<and> fst (create_undo_script
            (snd (organize (\<lambda>fmt ts. ''2024-01'') (By_type None) demo_dry False False))) = None"
proof -
  have d: "dry_run demo_dry" and m: "moved_files demo_dry = []"
    by (simp_all add: demo_dry_def)
  have i: "init demo_disk [''in''] None True False = Inr demo_dry"
    by (simp add: init_def demo_dry_def demo_disk_def exists_def lookup_def)
  show ?thesis
    using dry_run_logs_nothing [OF d m, of "\<lambda>fmt ts. ''2024-01''" "By_type None" False False] i
    by (simp add: demo_dry_run)
qed

section \<open>Failures in live mode\<close>











section \<open>Facts about the file system\<close>

lemma name_snoc: "name (d @ [n]) = n"
  by (simp add: name_def)

lemma butlast_snoc2: "butlast (d @ [f, n]) = d @ [f]"
  by (simp add: butlast_append)

lemma suffixed_parent: "butlast (suffixed td ot k) = td"
  by (simp add: suffixed_def)

lemma suffixed_not_root: "suffixed td ot k \<noteq> []"
  by (simp add: suffixed_def)

lemma lookup_cons:
  "lookup ((q, n) # d) p = (if p = [] then Some new_dir else if p = q then Some n else lookup d p)"
  by (simp add: lookup_def)

lemma map_of_remove: "map_of (remove d q) p = (if p = q then None else map_of d p)"
  by (induction d) (auto simp: remove_def)

lemma lookup_remove:
  "lookup (remove d q) p = (if p = q \<and> p \<noteq> [] then None else lookup d p)"
  by (simp add: lookup_def map_of_remove)

lemma lookup_root: "lookup d [] = Some new_dir"
  by (simp add: lookup_def)

lemma exists_root: "exists d []"
  by (simp add: exists_def lookup_def)

lemma is_dir_exists: "is_dir d p \<Longrightarrow> exists d p"
  by (auto simp: is_dir_def exists_def split: option.splits)

lemma regular_not_root: "lookup d p = Some n \<Longrightarrow> kind n = Regular \<Longrightarrow> p \<noteq> []"
  by (auto simp: lookup_def new_dir_def)

lemma move_regular:
  assumes "lookup d src = Some n" and "kind n = Regular"
    and "\<not> exists d dst" and "is_dir d (butlast dst)"
  shows "move d src dst = Inr ((dst, n) # remove d src)"
proof -
  have "src \<noteq> []" using assms(1,2) by (rule regular_not_root)
  moreover have "\<not> is_dir d dst" using assms(3) is_dir_exists by blast
  ultimately show ?thesis using assms by (simp add: move_def)
qed


lemma move_no_source_dir:
  "\<not> is_dir d (butlast dst) \<Longrightarrow> \<not> exists d dst \<Longrightarrow> exists d src \<Longrightarrow> src \<noteq> [] \<Longrightarrow>
   move d src dst = Inl FileNotFoundError"
  by (auto simp: move_def exists_def dest: is_dir_exists split: option.splits)





section \<open>Name collisions\<close>












section \<open>Custom rules\<close>












section \<open>Totality of classification\<close>











section \<open>The pre-flight check\<close>

theorem file_as_root_counterexample:
  "init [([''notes.txt''], regular 3 ''abc'')] [''notes.txt''] None True False
     = Inr \<lparr>source_dir = [''notes.txt''], target_dir = [''notes.txt''], dry_run = True,
            copy_files = False, moved_files = [], failed_files = [],
            disk = [([''notes.txt''], regular 3 ''abc'')], events = []\<rparr>
   \<and> \<not> is_dir [([''notes.txt''], regular 3 ''abc'')] [''notes.txt'']"
  by (simp add: init_def exists_def is_dir_def lookup_def regular_def)

text \<open>
  Claim C3, as amended. The constructor fails, before any file is touched, exactly when
  the source root does not exist. When a path exists there, directory or not,
  construction succeeds; a root that is not a directory then enumerates no files, so a
  run relocates nothing.
\<close>

theorem preflight_checks_existence:
  "(\<not> exists d source \<longrightarrow> init d source target dry copy = Inl FileNotFoundError)
   \<and> (exists d source \<longrightarrow>
        init d source target dry copy
          = Inr \<lparr>source_dir = source,
                 target_dir = (case target of Some t \<Rightarrow> t | None \<Rightarrow> source),
                 dry_run = dry, copy_files = copy, moved_files = [], failed_files = [],
                 disk = d, events = []\<rparr>)
   \<and> (init d source target dry copy = Inr s \<and> \<not> is_dir d source \<longrightarrow>
        get_files s recursive hidden = [])"
  by (auto simp: init_def get_files_def glob_def)

theorem preflight_checks_existence_witness:
  "\<not> exists demo_disk [''missing'']
   \<and> init demo_disk [''missing''] None True False = Inl FileNotFoundError
   \<and> exists demo_disk [''in'']
   \<and> init demo_disk [''in''] None True False = Inr demo_dry
   \<and> \<not> is_dir demo_disk [''in'', ''a.png'']
   \<and> (\<exists>s. init demo_disk [''in'', ''a.png''] None True False = Inr s
          \<and> get_files s False False = [])"
proof -
  have a: "\<not> exists demo_disk [''missing'']" "exists demo_disk [''in'']"
    "exists demo_disk [''in'', ''a.png'']" "\<not> is_dir demo_disk [''in'', ''a.png'']"
    by (simp_all add: exists_def is_dir_def lookup_def demo_disk_def regular_def)
  show ?thesis
    using preflight_checks_existence [of demo_disk "[''missing'']" None True False]
      preflight_checks_existence [of demo_disk "[''in'']" None True False]
      preflight_checks_existence [of demo_disk "[''in'', ''a.png'']" None True False _ False False]
      a
    by (simp add: demo_dry_def)
qed

section \<open>Running the undo script\<close>

lemma lookup_moved:
  "lookup ((t, n) # remove d q) p =
     (if p = [] then Some new_dir else if p = t then Some n
      else if p = q then None else lookup d p)"
  by (simp add: lookup_cons lookup_remove)

lemma undo_file_missing:
  "\<not> exists (undo_disk u) q \<Longrightarrow>
   undo_file sd q u = u\<lparr>printed := printed u @ [File_not_found q]\<rparr>"
  by (simp add: undo_file_def)

lemma undo_file_fails:
  "exists (undo_disk u) q \<Longrightarrow>
   move (undo_disk u) q
     (resolve_conflict (undo_disk u) False sd (sd @ [name q]) (sd @ [name q]) 1) = Inl e \<Longrightarrow>
   undo_file sd q u = u\<lparr>printed := printed u @ [Failed_to_move_back q e]\<rparr>"
  by (simp add: undo_file_def undo_resolve_conflict_eq)

lemma resolved_free:
  "\<not> exists d (resolve_conflict d False td (td @ [x]) (td @ [x]) 1)
   \<and> butlast (resolve_conflict d False td (td @ [x]) (td @ [x]) 1) = td
   \<and> resolve_conflict d False td (td @ [x]) (td @ [x]) 1 \<noteq> []"
proof (cases "exists d (td @ [x])")
  case False
  then have "resolve_conflict d False td (td @ [x]) (td @ [x]) 1 = td @ [x]"
    by (rule resolve_conflict_free)
  with False show ?thesis by simp
next
  case True
  from resolve_conflict_taken [OF True, of False 1 td "td @ [x]"]
  show ?thesis by (auto simp: suffixed_parent exists_root)
qed

lemma undo_file_regular:
  assumes "lookup (undo_disk u) q = Some n" and "kind n = Regular"
    and "is_dir (undo_disk u) sd"
  shows "undo_file sd q u =
     u\<lparr>undo_disk := (resolve_conflict (undo_disk u) False sd (sd @ [name q]) (sd @ [name q]) 1, n)
                     # remove (undo_disk u) q,
       printed := printed u @ [Moved_back (name q)],
       success_count := success_count u + 1\<rparr>"
proof -
  let ?t = "resolve_conflict (undo_disk u) False sd (sd @ [name q]) (sd @ [name q]) 1"
  have ex: "exists (undo_disk u) q" using assms(1) by (simp add: exists_def)
  have "move (undo_disk u) q ?t = Inr ((?t, n) # remove (undo_disk u) q)"
    using assms resolved_free [of "undo_disk u" sd "name q"]
    by (intro move_regular) simp_all
  with ex show ?thesis by (simp add: undo_file_def undo_resolve_conflict_eq Let_def)
qed

lemma is_dir_not_regular:
  "is_dir d p \<Longrightarrow> lookup d p = Some n \<Longrightarrow> kind n \<noteq> Regular"
  by (simp add: is_dir_def)

lemma undo_loop_restores:
  assumes "is_dir (undo_disk u) sd"
    and "distinct (map name qs)"
    and "\<forall>q\<in>set qs. \<exists>n. lookup (undo_disk u) q = Some n \<and> kind n = Regular"
    and "\<forall>q\<in>set qs. \<not> exists (undo_disk u) (sd @ [name q])"
  shows "(\<forall>q\<in>set qs. lookup (undo_disk (undo_loop sd qs u)) (sd @ [name q])
                        = lookup (undo_disk u) q
                    \<and> \<not> exists (undo_disk (undo_loop sd qs u)) q)
       \<and> (\<forall>p. p \<notin> set qs \<and> p \<notin> (\<lambda>q. sd @ [name q]) ` set qs \<longrightarrow>
              lookup (undo_disk (undo_loop sd qs u)) p = lookup (undo_disk u) p)
       \<and> success_count (undo_loop sd qs u) = success_count u + length qs"
  using assms
proof (induction qs arbitrary: u)
  case Nil
  then show ?case by simp
next
  case (Cons q qs)
  let ?D = "undo_disk u"
  let ?t = "sd @ [name q]"
  from Cons.prems(3) obtain n where n: "lookup ?D q = Some n" "kind n = Regular" by auto
  have free: "\<not> exists ?D ?t" using Cons.prems(4) by simp
  then have res: "resolve_conflict ?D False sd ?t ?t 1 = ?t" by (rule resolve_conflict_free)
  let ?u = "undo_file sd q u"
  have u': "?u = u\<lparr>undo_disk := (?t, n) # remove ?D q,
                   printed := printed u @ [Moved_back (name q)],
                   success_count := success_count u + 1\<rparr>"
    using undo_file_regular [OF n Cons.prems(1)] res by simp
  have D': "undo_disk ?u = (?t, n) # remove ?D q" by (simp add: u')
  have qne: "q \<noteq> []" using n by (rule regular_not_root)
  have qt: "q \<noteq> ?t" using n(1) free by (auto simp: exists_def)
  have look: "lookup (undo_disk ?u) p =
     (if p = [] then Some new_dir else if p = ?t then Some n
      else if p = q then None else lookup ?D p)" for p
    unfolding D' by (rule lookup_moved)
  have rest_ne: "q' \<noteq> q \<and> q' \<noteq> ?t \<and> q' \<noteq> [] \<and> sd @ [name q'] \<noteq> ?t \<and> sd @ [name q'] \<noteq> q"
    if "q' \<in> set qs" for q'
  proof -
    from Cons.prems(2) have "name q \<notin> name ` set qs" by simp
    with that have nn: "name q' \<noteq> name q" by (metis imageI)
    from that Cons.prems(3) obtain n' where n': "lookup ?D q' = Some n'" "kind n' = Regular"
      by auto
    from that Cons.prems(4) have f': "\<not> exists ?D (sd @ [name q'])" by simp
    have "q' \<noteq> ?t" using n'(1) free by (auto simp: exists_def)
    moreover have "q' \<noteq> []" using n' by (rule regular_not_root)
    moreover have "sd @ [name q'] \<noteq> q" using n(1) f' by (auto simp: exists_def)
    ultimately show ?thesis using nn by auto
  qed
  have p1: "is_dir (undo_disk ?u) sd"
  proof -
    have "sd \<noteq> q" using Cons.prems(1) n by (auto dest: is_dir_not_regular)
    then have "lookup (undo_disk ?u) sd = lookup ?D sd"
      by (simp add: look lookup_root)
    with Cons.prems(1) show ?thesis by (simp add: is_dir_def)
  qed
  have p2: "distinct (map name qs)" using Cons.prems(2) by simp
  have p3: "\<forall>q'\<in>set qs. \<exists>n. lookup (undo_disk ?u) q' = Some n \<and> kind n = Regular"
  proof
    fix q' assume q': "q' \<in> set qs"
    with Cons.prems(3) obtain n' where "lookup ?D q' = Some n'" "kind n' = Regular" by auto
    with rest_ne [OF q'] show "\<exists>n. lookup (undo_disk ?u) q' = Some n \<and> kind n = Regular"
      by (simp add: look)
  qed
  have p4: "\<forall>q'\<in>set qs. \<not> exists (undo_disk ?u) (sd @ [name q'])"
  proof
    fix q' assume q': "q' \<in> set qs"
    with Cons.prems(4) have "\<not> exists ?D (sd @ [name q'])" by simp
    with rest_ne [OF q'] show "\<not> exists (undo_disk ?u) (sd @ [name q'])"
      by (simp add: exists_def look)
  qed
  note IH = Cons.IH [OF p1 p2 p3 p4]
  have fin: "undo_loop sd (q # qs) u = undo_loop sd qs ?u" by simp
  have t_notin: "?t \<notin> set qs \<and> ?t \<notin> (\<lambda>q. sd @ [name q]) ` set qs"
  proof (intro conjI notI)
    assume "?t \<in> set qs"
    from rest_ne [OF this] show False by simp
  next
    assume "?t \<in> (\<lambda>q. sd @ [name q]) ` set qs"
    then obtain q' where q': "q' \<in> set qs" "?t = sd @ [name q']" by blast
    from rest_ne [OF q'(1)] q'(2) show False by simp
  qed
  have q_notin: "q \<notin> set qs \<and> q \<notin> (\<lambda>q. sd @ [name q]) ` set qs"
  proof (intro conjI notI)
    assume "q \<in> set qs"
    from rest_ne [OF this] show False by simp
  next
    assume "q \<in> (\<lambda>q. sd @ [name q]) ` set qs"
    then obtain q' where q': "q' \<in> set qs" "q = sd @ [name q']" by blast
    from rest_ne [OF q'(1)] q'(2) show False by simp
  qed
  have a: "lookup (undo_disk (undo_loop sd qs ?u)) ?t = lookup ?D q"
    using IH t_notin n by (simp add: look)
  have b: "\<not> exists (undo_disk (undo_loop sd qs ?u)) q"
    using IH q_notin qne qt by (simp add: exists_def look)
  have c: "\<forall>q'\<in>set qs. lookup (undo_disk (undo_loop sd qs ?u)) (sd @ [name q'])
                        = lookup ?D q'
                    \<and> \<not> exists (undo_disk (undo_loop sd qs ?u)) q'"
  proof
    fix q' assume q': "q' \<in> set qs"
    with IH have "lookup (undo_disk (undo_loop sd qs ?u)) (sd @ [name q'])
        = lookup (undo_disk ?u) q'"
      and e: "\<not> exists (undo_disk (undo_loop sd qs ?u)) q'"
      by auto
    with rest_ne [OF q'] show "lookup (undo_disk (undo_loop sd qs ?u)) (sd @ [name q'])
                        = lookup ?D q'
                    \<and> \<not> exists (undo_disk (undo_loop sd qs ?u)) q'"
      by (simp add: look)
  qed
  have d: "\<forall>p. p \<notin> set (q # qs) \<and> p \<notin> (\<lambda>q. sd @ [name q]) ` set (q # qs) \<longrightarrow>
              lookup (undo_disk (undo_loop sd qs ?u)) p = lookup ?D p"
  proof (intro allI impI)
    fix p assume p: "p \<notin> set (q # qs) \<and> p \<notin> (\<lambda>q. sd @ [name q]) ` set (q # qs)"
    then have "p \<notin> set qs \<and> p \<notin> (\<lambda>q. sd @ [name q]) ` set qs" by auto
    with IH have "lookup (undo_disk (undo_loop sd qs ?u)) p = lookup (undo_disk ?u) p"
      by blast
    also have "\<dots> = lookup ?D p" using p by (auto simp: look lookup_root)
    finally show "lookup (undo_disk (undo_loop sd qs ?u)) p = lookup ?D p" .
  qed
  have e: "success_count (undo_loop sd qs ?u) = success_count u + length (q # qs)"
    using IH by (simp add: u')
  show ?case unfolding fin using a b c d e by simp
qed

end
